theory Spec2Isabelle
  imports Complex_Main "HOL-Library.Word"
begin

unbundle bit_operations_syntax

section \<open>Hall sensor RPM counter: the sketch as HOL functions\<close>

text \<open>
  The sketch targets the Arduino UNO (README), an 8-bit AVR: \<open>int\<close> and \<open>short\<close> are
  16 bits wide, \<open>long\<close> and \<open>unsigned long\<close> are 32 bits wide, \<open>byte\<close> and
  \<open>unsigned char\<close> are 8 bits wide, and both \<open>float\<close> and \<open>double\<close> are the IEEE 754
  single-precision format. Operations whose result the C language leaves undefined
  (an overflow of signed arithmetic, a conversion of a non-finite or too large
  floating-point value to \<open>int\<close>, a store past the end of an array) are results of
  type \<open>error\<close>.
\<close>

type_synonym ulong = "32 word"
type_synonym byte = "8 word"

datatype error =
    FloatDivByZero   \<comment> \<open>division of a non-zero float by 0.0: the quotient is infinite\<close>
  | IntCastOverflow  \<comment> \<open>\<open>(int)\<close> of a float outside the range of \<open>int\<close>\<close>
  | BufferOverrun    \<comment> \<open>store past the last element of a fixed-size array\<close>
  | SignedOverflow   \<comment> \<open>a result of \<open>long\<close> arithmetic outside the range of \<open>long\<close>\<close>

subsection \<open>Constants\<close>

definition MAX_STAMP_AGE :: ulong where
  "MAX_STAMP_AGE = 6000"

definition MAX_STAMPS :: nat where
  "MAX_STAMPS = 5"

subsection \<open>Arithmetic on \<open>long\<close> and the \<open>abs\<close> macro\<close>

text \<open>
  A value of type \<open>long\<close> is an integer between \<open>- 2 ^ 31\<close> and \<open>2 ^ 31 - 1\<close>. The
  conversion of an \<open>unsigned long\<close> to \<open>long\<close> keeps the 32 bits (\<open>sint\<close>), as the
  compiler of the AVR defines it. A difference outside the range of \<open>long\<close> is
  undefined.
\<close>

definition long_sub :: "int \<Rightarrow> int \<Rightarrow> error + int" where
  "long_sub a b =
     (let d = a - b
      in if - 2147483648 \<le> d \<and> d \<le> 2147483647 then Inr d else Inl SignedOverflow)"

text \<open>
  Modelled from the spec: \<open>abs\<close> is the macro of the Arduino core, which is not part of
  the sketch; the spec gives the age as the absolute difference \<open>|now - t|\<close>. The core
  defines \<open>abs(x)\<close> as \<open>((x)>0?(x):-(x))\<close>, evaluated at the type of its argument:
  \<open>abs_long\<close> for an argument of type \<open>long\<close>, where the negation of the least
  \<open>long\<close> is undefined, and \<open>abs_ulong\<close> for one of type \<open>unsigned long\<close>, where
  the negation wraps around.
\<close>

definition abs_long :: "int \<Rightarrow> error + int" where
  "abs_long x =
     (if 0 < x then Inr x
      else if x = - 2147483648 then Inl SignedOverflow
      else Inr (- x))"

definition abs_ulong :: "ulong \<Rightarrow> ulong" where
  "abs_ulong x = (if 0 < x then x else - x)"

subsection \<open>Single-precision arithmetic\<close>

text \<open>
  A finite single-precision value is a rational number. \<open>float_round\<close> rounds a rational
  to the nearest number with a 24-bit significand, ties to the even significand; this
  is the result of every IEEE 754 operation on finite values in the normal range
  (between \<open>2 ^ -126\<close> and \<open>2 ^ 128\<close> in magnitude), where all values of
  \<open>calculateRPM\<close> lie.
\<close>

fun bit_length :: "nat \<Rightarrow> nat" where
  "bit_length n = (if n = 0 then 0 else Suc (bit_length (n div 2)))"

declare bit_length.simps [simp del]

definition pow2 :: "int \<Rightarrow> rat" where
  "pow2 e = (if 0 \<le> e then 2 ^ nat e else 1 / 2 ^ nat (- e))"

definition binade :: "rat \<Rightarrow> int" where
  "binade x =
     (let a = \<bar>x\<bar>
      in if 1 \<le> a then int (bit_length (nat \<lfloor>a\<rfloor>)) - 1
         else - int (bit_length (nat (\<lceil>1 / a\<rceil> - 1))))"

definition round_half_even :: "rat \<Rightarrow> int" where
  "round_half_even x =
     (let f = \<lfloor>x\<rfloor>; r = x - of_int f
      in if r < 1 / 2 then f
         else if 1 / 2 < r then f + 1
         else if even f then f else f + 1)"

definition float_round :: "rat \<Rightarrow> rat" where
  "float_round x =
     (if x = 0 then 0
      else let ulp = pow2 (binade x - 23)
           in of_int (round_half_even (x / ulp)) * ulp)"

definition fdiv :: "rat \<Rightarrow> rat \<Rightarrow> rat" where
  "fdiv a b = float_round (a / b)"

definition fmul :: "rat \<Rightarrow> rat \<Rightarrow> rat" where
  "fmul a b = float_round (a * b)"

definition float_of_ulong :: "ulong \<Rightarrow> rat" where
  "float_of_ulong w = float_round (of_nat (unat w))"

text \<open>
  \<open>(int)x\<close> discards the fractional part (rounds towards zero). The value must be in
  the range of the 16-bit \<open>int\<close>; otherwise the behaviour is undefined.
\<close>

definition int_of_float :: "rat \<Rightarrow> error + int" where
  "int_of_float x =
     (let n = (if 0 \<le> x then \<lfloor>x\<rfloor> else - \<lfloor>- x\<rfloor>)
      in if - 32768 \<le> n \<and> n \<le> 32767 then Inr n else Inl IntCastOverflow)"

subsection \<open>The estimator: \<open>calculateRPM\<close>\<close>

text \<open>
  \<open>tsDiff\<close> is \<open>abs((long)curTime - (long)(ts[i]))\<close>, converted back to
  \<open>unsigned long\<close>: a non-negative \<open>long\<close> keeps its value.
\<close>

definition tsDiff :: "ulong \<Rightarrow> ulong \<Rightarrow> error + ulong" where
  "tsDiff curTime t =
     (case long_sub (sint curTime) (sint t) of
        Inl e \<Rightarrow> Inl e
      | Inr d \<Rightarrow> (case abs_long d of Inl e \<Rightarrow> Inl e | Inr a \<Rightarrow> Inr (of_int a)))"

text \<open>
  The copy loop: \<open>ts[i] = timestamps[i]\<close> for \<open>i\<close> from 0 below \<open>MAX_STAMPS\<close>.
\<close>

definition copy_timestamps :: "ulong list \<Rightarrow> ulong list" where
  "copy_timestamps stamps = map (\<lambda>i. stamps ! i) [0..<MAX_STAMPS]"

text \<open>
  The second loop works on the triple \<open>(low, high, datapoints)\<close>. \<open>update_window\<close> is
  the block guarded by \<open>tsDiff < MAX_STAMP_AGE\<close>, \<open>scan_slot\<close> the body of the loop
  for the slot value \<open>t\<close>, and \<open>scan_slots\<close> the loop over the slot values in the
  order of their indices. The counter \<open>datapoints\<close> is a \<open>short\<close>; it is incremented at
  most \<open>MAX_STAMPS\<close> times and cannot overflow.
\<close>

definition update_window :: "ulong \<Rightarrow> ulong \<times> ulong \<times> int \<Rightarrow> ulong \<times> ulong \<times> int" where
  "update_window t acc =
     (case acc of (low, high, datapoints) \<Rightarrow>
        (if low = 0 \<or> t \<le> low then t else low,
         if high < t then t else high,
         datapoints + 1))"

definition scan_slot ::
  "ulong \<Rightarrow> ulong \<Rightarrow> ulong \<times> ulong \<times> int \<Rightarrow> error + ulong \<times> ulong \<times> int" where
  "scan_slot curTime t acc =
     (case tsDiff curTime t of
        Inl e \<Rightarrow> Inl e
      | Inr d \<Rightarrow> Inr (if d < MAX_STAMP_AGE then update_window t acc else acc))"

fun scan_slots ::
  "ulong \<Rightarrow> ulong list \<Rightarrow> ulong \<times> ulong \<times> int \<Rightarrow> error + ulong \<times> ulong \<times> int" where
  "scan_slots curTime [] acc = Inr acc"
| "scan_slots curTime (t # ts) acc =
     (case scan_slot curTime t acc of
        Inl e \<Rightarrow> Inl e
      | Inr acc' \<Rightarrow> scan_slots curTime ts acc')"

definition find_applicable :: "ulong \<Rightarrow> ulong list \<Rightarrow> error + ulong \<times> ulong \<times> int" where
  "find_applicable curTime ts =
     scan_slots curTime (map (\<lambda>i. ts ! i) [0..<MAX_STAMPS]) (0, 0, 0)"

text \<open>
  The final computation. With \<open>timeDiff = 0\<close> the divisor \<open>timeDiff / 1000.0\<close> is
  \<open>0.0\<close>, \<open>revs\<close> is at least 1, the quotient and \<open>rps * 60.0\<close> are infinite, and the
  conversion to \<open>int\<close> is undefined.
\<close>

definition rpm_of :: "ulong \<Rightarrow> ulong \<Rightarrow> int \<Rightarrow> error + int" where
  "rpm_of low high datapoints =
     (if 1 < datapoints then
        let timeDiff = abs_ulong (high - low);
            revs = datapoints - 1
        in if timeDiff = 0 then Inl FloatDivByZero
           else let rps = fdiv (of_int revs) (fdiv (float_of_ulong timeDiff) 1000)
                in int_of_float (fmul rps 60)
      else Inr 0)"

text \<open>
  \<open>calculateRPM\<close>, with \<open>curTime\<close> the value of \<open>millis()\<close> and \<open>stamps\<close> the
  global array \<open>timestamps\<close>. The two loops run between \<open>noInterrupts()\<close> and
  \<open>interrupts()\<close>, so that \<open>stamps\<close> is one value throughout.
\<close>

definition calculateRPM :: "ulong \<Rightarrow> ulong list \<Rightarrow> error + int" where
  "calculateRPM curTime stamps =
     (let ts = copy_timestamps stamps
      in case find_applicable curTime ts of
           Inl e \<Rightarrow> Inl e
         | Inr (low, high, datapoints) \<Rightarrow> rpm_of low high datapoints)"

subsection \<open>The glyph table and \<open>SetupDigits\<close>\<close>

text \<open>
  \<open>CharBitMap\<close> is a flat array of character, bitmap pairs, closed by the pair
  \<open>0, 0\<close>. A segment is lit when its bit is 0: \<open>'8'\<close> is \<open>0x80\<close> (all seven
  segments, no decimal point) and \<open>' '\<close> is \<open>0xff\<close> (nothing lit).
\<close>

definition CharBitMap :: "byte list" where
  "CharBitMap =
     [of_char CHR ''0'', 0xC0,
      of_char CHR ''1'', 0xF9,
      of_char CHR ''2'', 0xA4,
      of_char CHR ''3'', 0xB0,
      of_char CHR ''4'', 0x99,
      of_char CHR ''5'', 0x92,
      of_char CHR ''6'', 0x82,
      of_char CHR ''7'', 0xF8,
      of_char CHR ''8'', 0x80,
      of_char CHR ''9'', 0x90,
      of_char CHR ''A'', 0x88,
      of_char CHR ''b'', 0x83,
      of_char CHR ''C'', 0xC6,
      of_char CHR ''d'', 0xA1,
      of_char CHR ''E'', 0x86,
      of_char CHR ''F'', 0x8e,
      of_char CHR ''P'', 0x8c,
      of_char CHR ''-'', 0xbf,
      of_char CHR ''c'', 0xa7,
      of_char CHR '' '', 0xff,
      0, 0]"

text \<open>
  The comparison \<open>*bm == *p\<close> is made on \<open>int\<close>: the \<open>unsigned char\<close> of the table
  is zero-extended, the \<open>char\<close> of the string (signed on the AVR) is sign-extended.
\<close>

definition same_char :: "byte \<Rightarrow> char \<Rightarrow> bool" where
  "same_char k c = (uint k = sint (of_char c :: byte))"

text \<open>
  The inner loop of \<open>SetupDigits\<close>, from the position \<open>bm\<close> in the table: it stops at
  a zero key with \<open>i\<close> still 0, or at the first key equal to the character. The last
  equation is a read past the end of the array, which the closing pair of the table
  prevents.
\<close>

fun find_bitmap :: "byte list \<Rightarrow> char \<Rightarrow> byte" where
  "find_bitmap (k # v # bm) c =
     (if k = 0 then 0 else if same_char k c then v else find_bitmap bm c)"
| "find_bitmap _ c = 0"

text \<open>
  The outer loop: \<open>p\<close> is the rest of the string (a list with no closing NUL ends where
  the C string has its terminator), \<open>n\<close> is the offset of \<open>dispBM\<close> in \<open>DisplayBM\<close>.
\<close>

fun SetupDigits_loop :: "string \<Rightarrow> nat \<Rightarrow> byte list \<Rightarrow> error + byte list" where
  "SetupDigits_loop [] n buf = Inr buf"
| "SetupDigits_loop (c # p) n buf =
     (if c = CHR 0x00 then Inr buf
      else if n < length buf then
        SetupDigits_loop p (Suc n) (buf[n := find_bitmap CharBitMap c])
      else Inl BufferOverrun)"

definition SetupDigits :: "string \<Rightarrow> byte list \<Rightarrow> error + byte list" where
  "SetupDigits s buf = SetupDigits_loop s 0 buf"

subsection \<open>Driving the display\<close>

datatype level = LOW | HIGH

definition SCLK :: int where "SCLK = 8"
definition RCLK :: int where "RCLK = 7"
definition DIO :: int where "DIO = 4"

text \<open>
  The display code writes pins only; its effect is the list of the
  \<open>digitalWrite(pin, level)\<close> calls it makes, in order. \<open>shift_out i c\<close> is the loop of
  \<open>ShiftToDisplay\<close> with \<open>i\<close> rounds to go.
\<close>

fun shift_out :: "nat \<Rightarrow> byte \<Rightarrow> (int \<times> level) list" where
  "shift_out 0 c = []"
| "shift_out (Suc i) c =
     (DIO, if c AND 0x80 \<noteq> 0 then HIGH else LOW) # (SCLK, LOW) # (SCLK, HIGH) #
     shift_out i (push_bit 1 c)"

definition ShiftToDisplay :: "byte \<Rightarrow> (int \<times> level) list" where
  "ShiftToDisplay c = shift_out 8 c"

definition digit_select :: "int \<Rightarrow> byte" where
  "digit_select pos =
     (if pos = 1 then 0x01
      else if pos = 2 then 0x02
      else if pos = 3 then 0x04
      else if pos = 4 then 0x08
      else 0x01)"

definition DisplayDigitBitmap :: "byte \<Rightarrow> int \<Rightarrow> (int \<times> level) list" where
  "DisplayDigitBitmap bm pos =
     (RCLK, LOW) # ShiftToDisplay bm @ ShiftToDisplay (digit_select pos) @ [(RCLK, HIGH)]"

subsection \<open>The globals of the sketch\<close>

record sketch =
  timestamps :: "ulong list"
  DisplayBM :: "byte list"
  oldRpm :: int
  curCharacter :: byte    \<comment> \<open>\<open>__curCharacter\<close>\<close>
  serial :: string        \<comment> \<open>the characters written to \<open>Serial\<close>\<close>
  pins :: "(int \<times> level) list"  \<comment> \<open>the \<open>digitalWrite\<close> calls made\<close>

text \<open>
  \<open>DisplayDigits\<close>: \<open>__curCharacter % 4\<close> is computed on \<open>int\<close>; the increment of the
  \<open>byte\<close> wraps around at 256.
\<close>

definition DisplayDigits :: "sketch \<Rightarrow> sketch" where
  "DisplayDigits st =
     (let cur = int (unat (curCharacter st))
      in st\<lparr>pins := pins st @ DisplayDigitBitmap (DisplayBM st ! nat (cur mod 4)) (4 - cur mod 4),
            curCharacter := curCharacter st + 1\<rparr>)"

subsection \<open>The main loop\<close>

text \<open>
  Modelled from the spec: \<open>sprintf\<close> and \<open>Serial\<close> belong to the C library and the
  Arduino core. The spec has \<open>"%.4d"\<close> format the value as a zero-padded decimal
  string of 4 characters (more when the value needs them, after a minus sign when it
  is negative), and the console line as \<open>rpm: <integer>\<close>; \<open>println\<close> closes the line
  with a carriage return and a line feed.
\<close>

fun decimal :: "nat \<Rightarrow> string" where
  "decimal n =
     (if n < 10 then [''0123456789'' ! n]
      else decimal (n div 10) @ [''0123456789'' ! (n mod 10)])"

declare decimal.simps [simp del]

definition format_04d :: "int \<Rightarrow> string" where
  "format_04d v =
     (let ds = decimal (nat \<bar>v\<bar>);
          padded = replicate (4 - length ds) CHR ''0'' @ ds
      in if v < 0 then CHR ''-'' # padded else padded)"

definition print_int :: "int \<Rightarrow> string" where
  "print_int v = (if v < 0 then CHR ''-'' # decimal (nat (- v)) else decimal (nat v))"

text \<open>
  \<open>sprintf(displayString, "%.4d", rpm)\<close> into \<open>char displayString[5]\<close>: the
  characters and the closing NUL must fit in the 5 bytes.
\<close>

definition sprintf_displayString :: "int \<Rightarrow> error + string" where
  "sprintf_displayString rpm =
     (let s = format_04d rpm in if length s + 1 \<le> 5 then Inr s else Inl BufferOverrun)"

text \<open>
  One pass of the body of \<open>while (1)\<close> in \<open>loop\<close>, with \<open>curTime\<close> the value that
  \<open>millis()\<close> returns in \<open>calculateRPM\<close>.
\<close>

definition loop_iteration :: "ulong \<Rightarrow> sketch \<Rightarrow> error + sketch" where
  "loop_iteration curTime st =
     (case calculateRPM curTime (timestamps st) of
        Inl e \<Rightarrow> Inl e
      | Inr rpm \<Rightarrow>
          if rpm \<noteq> oldRpm st then
            let st1 = st\<lparr>oldRpm := rpm,
                         serial := serial st @ ''rpm: '' @ print_int rpm @ [CHR 0x0D, CHR 0x0A]\<rparr>
            in case sprintf_displayString rpm of
                 Inl e \<Rightarrow> Inl e
               | Inr displayString \<Rightarrow>
                   (case SetupDigits displayString (DisplayBM st1) of
                      Inl e \<Rightarrow> Inl e
                    | Inr buf \<Rightarrow> Inr (DisplayDigits (st1\<lparr>DisplayBM := buf\<rparr>)))
          else Inr (DisplayDigits st))"

subsection \<open>Notions of the specification\<close>

text \<open>
  The age of the slot value \<open>t\<close> at time \<open>curTime\<close> is defined when neither the
  difference of the two values as \<open>long\<close> nor its negation overflows. The slot is
  applicable when its age is defined and below \<open>MAX_STAMP_AGE\<close>.
\<close>

definition age_defined :: "ulong \<Rightarrow> ulong \<Rightarrow> bool" where
  "age_defined curTime t =
     (- 2147483648 < sint curTime - sint t \<and> sint curTime - sint t \<le> 2147483647)"

definition applicable :: "ulong \<Rightarrow> ulong \<Rightarrow> bool" where
  "applicable curTime t =
     (case tsDiff curTime t of Inl e \<Rightarrow> False | Inr d \<Rightarrow> d < MAX_STAMP_AGE)"


text \<open>
  The age in the words of the specification: the absolute difference of the two
  counts.
\<close>

definition age_per_spec :: "ulong \<Rightarrow> ulong \<Rightarrow> int" where
  "age_per_spec now t = \<bar>uint now - uint t\<bar>"

text \<open>
  The time stamps of a ring that the estimator uses at time \<open>curTime\<close>, in the order
  of their slots.
\<close>

definition valid_stamps :: "ulong \<Rightarrow> ulong list \<Rightarrow> ulong list" where
  "valid_stamps curTime ts = filter (applicable curTime) ts"

text \<open>
  The second loop without its failures: the body of the loop on a slot whose age is
  defined.
\<close>

definition scan_defined :: "ulong \<Rightarrow> ulong \<Rightarrow> ulong \<times> ulong \<times> int \<Rightarrow> ulong \<times> ulong \<times> int" where
  "scan_defined curTime t acc = (if applicable curTime t then update_window t acc else acc)"

text \<open>
  A character is in the glyph table when one of the keys before the closing pair
  compares equal to it.
\<close>

fun in_table :: "byte list \<Rightarrow> char \<Rightarrow> bool" where
  "in_table (k # v # bm) c = (if k = 0 then False else same_char k c \<or> in_table bm c)"
| "in_table _ c = False"

text \<open>
  What the display receives on its data line: the levels written to \<open>DIO\<close>, in
  order (each is followed by one pulse of \<open>SCLK\<close>).
\<close>

definition level_of :: "bool \<Rightarrow> level" where
  "level_of b = (if b then HIGH else LOW)"

definition data_levels :: "(int \<times> level) list \<Rightarrow> level list" where
  "data_levels ws = map snd (filter (\<lambda>w. fst w = DIO) ws)"

text \<open>
  The number that a string of decimal digits denotes.
\<close>

definition digit_value :: "char \<Rightarrow> nat" where
  "digit_value c = of_char c - of_char CHR ''0''"

definition read_decimal :: "string \<Rightarrow> nat" where
  "read_decimal s = fold (\<lambda>c acc. acc * 10 + digit_value c) s 0"

section \<open>The estimator\<close>

subsection \<open>The age of a time stamp\<close>

text \<open>
  Where the age is defined, \<open>tsDiff\<close> is the absolute value of the difference of the
  two counters read as \<open>long\<close>; elsewhere the computation overflows.
\<close>

lemma sint32_range: "- 2147483648 \<le> sint (w :: ulong)" "sint (w :: ulong) \<le> 2147483647"
  using sint_ge [of w] sint_lt [of w] by simp_all

lemma uint_of_small_int:
  assumes "0 \<le> a" and "a \<le> 2147483647"
  shows "uint (of_int a :: ulong) = a"
proof -
  have "a < 2 ^ 32" using assms(2) by simp
  with assms(1) have "take_bit 32 a = a"
    by (simp add: take_bit_int_eq_self)
  then show ?thesis by (simp add: uint_word_of_int_eq)
qed

lemma tsDiff_defined:
  assumes "age_defined c t"
  shows "tsDiff c t = Inr (of_int \<bar>sint c - sint t\<bar>)"
  using assms by (auto simp: tsDiff_def long_sub_def abs_long_def age_defined_def Let_def)

lemma tsDiff_undefined:
  assumes "\<not> age_defined c t"
  shows "tsDiff c t = Inl SignedOverflow"
  using assms by (auto simp: tsDiff_def long_sub_def abs_long_def age_defined_def Let_def)

lemma applicable_iff:
  "applicable c t \<longleftrightarrow> age_defined c t \<and> \<bar>sint c - sint t\<bar> < 6000"
proof (cases "age_defined c t")
  case True
  then have "\<bar>sint c - sint t\<bar> \<le> 2147483647"
    by (auto simp: age_defined_def)
  then have "uint (of_int \<bar>sint c - sint t\<bar> :: ulong) = \<bar>sint c - sint t\<bar>"
    by (intro uint_of_small_int) simp_all
  then show ?thesis
    using True by (simp add: applicable_def tsDiff_defined MAX_STAMP_AGE_def word_less_def)
next
  case False
  then show ?thesis by (simp add: applicable_def tsDiff_undefined)
qed

subsection \<open>The loop over the copied time stamps\<close>

text \<open>
  On a ring whose ages are all defined the loop does not fail. It counts the
  applicable slots and takes the greatest of them; it takes the least of them when
  none of them is 0, the value that \<open>low\<close> starts from.
\<close>

lemma scan_slot_defined:
  "age_defined c t \<Longrightarrow> scan_slot c t acc = Inr (scan_defined c t acc)"
  by (simp add: scan_slot_def scan_defined_def applicable_def tsDiff_defined)

lemma scan_slot_undefined:
  "\<not> age_defined c t \<Longrightarrow> scan_slot c t acc = Inl SignedOverflow"
  by (simp add: scan_slot_def tsDiff_undefined)

lemma scan_slots_defined:
  "\<forall>t \<in> set ts. age_defined c t \<Longrightarrow> scan_slots c ts acc = Inr (fold (scan_defined c) ts acc)"
  by (induction ts arbitrary: acc) (simp_all add: scan_slot_defined)

lemma copy_timestamps_id: "length ts = MAX_STAMPS \<Longrightarrow> copy_timestamps ts = ts"
  unfolding copy_timestamps_def by (metis map_nth)

lemma find_applicable_fold:
  assumes "length ts = MAX_STAMPS" and "\<forall>t \<in> set ts. age_defined c t"
  shows "find_applicable c ts = Inr (fold (scan_defined c) ts (0, 0, 0))"
proof -
  have "map (\<lambda>i. ts ! i) [0..<MAX_STAMPS] = ts"
    using assms(1) by (metis map_nth)
  then show ?thesis
    by (simp add: find_applicable_def scan_slots_defined [OF assms(2)])
qed

lemma calculateRPM_find:
  assumes "length ts = MAX_STAMPS" and "find_applicable c ts = Inr (l, h, d)"
  shows "calculateRPM c ts = rpm_of l h d"
  using assms by (simp add: calculateRPM_def copy_timestamps_id)

lemma scan_datapoints:
  "snd (snd (fold (scan_defined c) ts (l, h, d))) = d + int (length (filter (applicable c) ts))"
  by (induction ts arbitrary: l h d) (simp_all add: scan_defined_def update_window_def)

lemma scan_high:
  "fst (snd (fold (scan_defined c) ts (l, h, d))) = fold max (filter (applicable c) ts) h"
proof (induction ts arbitrary: l h d)
  case Nil
  then show ?case by simp
next
  case (Cons t ts)
  have "(if h < t then t else h) = max t h" by (auto simp: max_def)
  then show ?case using Cons.IH by (simp add: scan_defined_def update_window_def)
qed

lemma scan_low_nonzero:
  assumes "0 \<notin> set (filter (applicable c) ts)" and "l \<noteq> 0"
  shows "fst (fold (scan_defined c) ts (l, h, d)) = fold min (filter (applicable c) ts) l"
  using assms
proof (induction ts arbitrary: l h d)
  case Nil
  then show ?case by simp
next
  case (Cons t ts)
  show ?case
  proof (cases "applicable c t")
    case True
    with Cons.prems have t0: "t \<noteq> 0" and rest: "0 \<notin> set (filter (applicable c) ts)"
      by auto
    have m: "(if t \<le> l then t else l) = min t l" by (simp add: min_def)
    have "min t l \<noteq> 0" using t0 Cons.prems(2) by (simp add: min_def)
    from Cons.IH [OF rest this] show ?thesis
      using True Cons.prems(2) m by (simp add: scan_defined_def update_window_def)
  next
    case False
    then show ?thesis using Cons by (simp add: scan_defined_def update_window_def)
  qed
qed

lemma scan_low_zero:
  assumes "0 \<notin> set (filter (applicable c) ts)"
  shows "fst (fold (scan_defined c) ts (0, h, d)) =
     (case filter (applicable c) ts of [] \<Rightarrow> 0 | v # vs \<Rightarrow> fold min vs v)"
  using assms
proof (induction ts arbitrary: h d)
  case Nil
  then show ?case by simp
next
  case (Cons t ts)
  show ?case
  proof (cases "applicable c t")
    case True
    with Cons.prems have t0: "t \<noteq> 0" and rest: "0 \<notin> set (filter (applicable c) ts)"
      by auto
    have "scan_defined c t (0, h, d) = (t, if h < t then t else h, d + 1)"
      using True by (simp add: scan_defined_def update_window_def)
    then show ?thesis
      using True scan_low_nonzero [OF rest t0] by simp
  next
    case False
    then show ?thesis using Cons by (simp add: scan_defined_def update_window_def)
  qed
qed

lemma find_applicable_Min_Max:
  assumes len: "length ts = MAX_STAMPS"
    and def: "\<forall>t \<in> set ts. age_defined c t"
    and nz: "0 \<notin> set (filter (applicable c) ts)"
    and ne: "filter (applicable c) ts \<noteq> []"
  shows "find_applicable c ts =
     Inr (Min (set (filter (applicable c) ts)), Max (set (filter (applicable c) ts)),
          int (length (filter (applicable c) ts)))"
proof -
  let ?w = "fold (scan_defined c) ts (0, 0, 0)"
  obtain v vs where vs: "filter (applicable c) ts = v # vs"
    using ne by (cases "filter (applicable c) ts") auto
  have "fst ?w = fold min vs v"
    using scan_low_zero [OF nz, of 0 0] vs by simp
  then have lo: "fst ?w = Min (set (v # vs))"
    by (simp only: Min.set_eq_fold)
  have "fold max (v # vs) 0 = fold max vs (max v 0)" by simp
  also have "max v 0 = v" by (simp add: max_def)
  finally have "fold max (v # vs) 0 = Max (set (v # vs))"
    by (simp only: Max.set_eq_fold)
  then have hi: "fst (snd ?w) = Max (set (v # vs))"
    using scan_high [of c ts 0 0 0] vs by simp
  have n: "snd (snd ?w) = int (length (v # vs))"
    using scan_datapoints [of c ts 0 0 0] vs by simp
  have "?w = (Min (set (v # vs)), Max (set (v # vs)), int (length (v # vs)))"
    using lo hi n by (simp only: prod_eq_iff fst_conv snd_conv simp_thms)
  then show ?thesis
    unfolding vs by (simp only: find_applicable_fold [OF len def])
qed

lemma scan_all_equal:
  assumes "\<forall>t \<in> set ts. applicable c t \<longrightarrow> t = v"
    and "l = 0 \<or> l = v" and "h = 0 \<or> h = v"
    and "filter (applicable c) ts \<noteq> []"
  shows "fold (scan_defined c) ts (l, h, d) = (v, v, d + int (length (filter (applicable c) ts)))"
  using assms
proof (induction ts arbitrary: l h d)
  case Nil
  then show ?case by simp
next
  case (Cons t ts)
  show ?case
  proof (cases "applicable c t")
    case True
    with Cons.prems(1) have tv: "t = v" by simp
    have step: "scan_defined c t (l, h, d) = (v, v, d + 1)"
      using True tv Cons.prems(2,3) by (auto simp: scan_defined_def update_window_def word_gt_0)
    show ?thesis
    proof (cases "filter (applicable c) ts = []")
      case True
      have "fold (scan_defined c) ts (v, v, d + 1) = (v, v, d + 1)"
        using True by (induction ts) (auto simp: scan_defined_def update_window_def split: if_splits)
      with step True \<open>applicable c t\<close> show ?thesis by simp
    next
      case False
      have "fold (scan_defined c) ts (v, v, d + 1) =
            (v, v, d + 1 + int (length (filter (applicable c) ts)))"
        using Cons.prems(1) False by (intro Cons.IH) auto
      with step \<open>applicable c t\<close> show ?thesis by simp
    qed
  next
    case False
    then show ?thesis using Cons by (simp add: scan_defined_def update_window_def)
  qed
qed

subsection \<open>Evaluation on concrete rings\<close>

text \<open>
  Rewrite rules that let the simplifier run the float operations and the loop on
  numerals.
\<close>

lemma floor_rat_numeral: "\<lfloor>numeral a / numeral b :: rat\<rfloor> = numeral a div numeral b"
  by (metis floor_divide_of_int_eq of_int_numeral)

lemma ceiling_rat_numeral: "\<lceil>numeral a / numeral b :: rat\<rceil> = - (- numeral a div numeral b)"
proof -
  have "\<lceil>of_int (numeral a) / of_int (numeral b) :: rat\<rceil> =
        - \<lfloor>of_int (- numeral a) / of_int (numeral b) :: rat\<rfloor>"
    by (simp add: ceiling_def)
  also have "\<dots> = - (- numeral a div numeral b)"
    by (simp only: floor_divide_of_int_eq)
  finally show ?thesis by simp
qed

lemmas float_eval = fdiv_def fmul_def float_of_ulong_def float_round_def binade_def pow2_def
  round_half_even_def int_of_float_def bit_length.simps floor_rat_numeral ceiling_rat_numeral

lemmas scan_eval = find_applicable_def copy_timestamps_def MAX_STAMPS_def scan_slot_def
  update_window_def tsDiff_def long_sub_def abs_long_def MAX_STAMP_AGE_def upt_rec

subsection \<open>Results of \<open>calculateRPM\<close>\<close>

text \<open>
  On a ring whose ages are all defined, \<open>calculateRPM\<close> returns 0 when fewer than 2
  slots are applicable.
\<close>

lemma few_applicable_rpm_zero:
  assumes len: "length ts = MAX_STAMPS"
    and def: "\<forall>t \<in> set ts. age_defined curTime t"
    and few: "length (filter (applicable curTime) ts) < 2"
  shows "calculateRPM curTime ts = Inr 0"
proof -
  obtain l h d where w: "fold (scan_defined curTime) ts (0, 0, 0) = (l, h, d)"
    by (cases "fold (scan_defined curTime) ts (0, 0, 0)") auto
  have "d = int (length (filter (applicable curTime) ts))"
    using scan_datapoints [of curTime ts 0 0 0] w by simp
  with few have "\<not> 1 < d" by simp
  moreover have "find_applicable curTime ts = Inr (l, h, d)"
    using find_applicable_fold [OF len def] w by simp
  ultimately show ?thesis
    by (simp add: calculateRPM_find [OF len] rpm_of_def)
qed

text \<open>
  C3: the claim has \<open>calculateRPM\<close> return 0 whenever fewer than 2 slots are within
  \<open>MAX_STAMP_AGE\<close> of the current time, in particular when the time has advanced
  past every stored time stamp by more than that. The age is computed on \<open>long\<close>,
  and the code does otherwise once the clock has passed \<open>2 ^ 31\<close>. At the time
  \<open>2 ^ 31\<close> on the ring as it is after reset, every slot is \<open>2 ^ 31\<close> milliseconds
  old and the computation of the age overflows. At the time \<open>2 ^ 32 - 1\<close> the time
  stamps 1000 and 3000, more than 49 days old, are taken for 1001 and 3001
  milliseconds old, and the result is 30.
\<close>

theorem stale_stamps_not_discounted:
  "age_per_spec 2147483648 0 = 2147483648 \<and>
   calculateRPM 2147483648 [0, 0, 0, 0, 0] = Inl SignedOverflow \<and>
   age_per_spec 4294967295 1000 = 4294966295 \<and>
   age_per_spec 4294967295 3000 = 4294964295 \<and>
   age_per_spec 4294967295 1000000 = 4293967295 \<and>
   calculateRPM 4294967295 [1000, 3000, 1000000, 1000000, 1000000] = Inr 30"
  by (simp add: age_per_spec_def calculateRPM_def rpm_of_def abs_ulong_def scan_eval float_eval)

text \<open>
  When at least 2 slots are applicable and all applicable slots hold the same time
  stamp, \<open>low\<close> and \<open>high\<close> are equal, \<open>timeDiff\<close> is 0 and the quotient
  \<open>revs / (timeDiff / 1000.0)\<close> is a division by zero: no 0 is returned.
\<close>

lemma all_equal_divides_by_zero:
  assumes len: "length ts = MAX_STAMPS"
    and def: "\<forall>t \<in> set ts. age_defined curTime t"
    and two: "2 \<le> length (filter (applicable curTime) ts)"
    and eq: "\<forall>t \<in> set ts. applicable curTime t \<longrightarrow> t = v"
  shows "calculateRPM curTime ts = Inl FloatDivByZero"
proof -
  from two have ne: "filter (applicable curTime) ts \<noteq> []" by auto
  have "find_applicable curTime ts =
          Inr (v, v, int (length (filter (applicable curTime) ts)))"
    using scan_all_equal [OF eq _ _ ne, of 0 0 0] by (simp add: find_applicable_fold [OF len def])
  from calculateRPM_find [OF len this] two show ?thesis
    by (simp add: rpm_of_def abs_ulong_def)
qed

text \<open>
  C1: the claim has \<open>calculateRPM\<close> return 0 when all applicable slots are equal.
  On the ring of the specification's example (every slot 5000, at time 5000) and on
  the ring as it is after reset (every slot 0) during the first \<open>MAX_STAMP_AGE\<close>
  milliseconds, the code divides by zero instead.
\<close>

theorem stuck_sensor_divides_by_zero:
  "calculateRPM 5000 [5000, 5000, 5000, 5000, 5000] = Inl FloatDivByZero \<and>
   calculateRPM 100 [0, 0, 0, 0, 0] = Inl FloatDivByZero"
  by (simp add: calculateRPM_def rpm_of_def abs_ulong_def scan_eval)

text \<open>
  C4: on the ring 1000, 1500, 2000, 2500, 3000 at time 3000 all 5 slots are
  applicable, \<open>low\<close> is 1000, \<open>high\<close> is 3000, \<open>datapoints\<close> is 5 (4 revolutions),
  \<open>timeDiff\<close> is 2000 and \<open>timeDiff / 1000.0\<close> is 2.0; the result is
  \<open>(4 / 2.0) * 60 = 120\<close>.
\<close>

theorem five_stamps_rpm_120:
  "applicable 3000 1000 \<and> applicable 3000 1500 \<and> applicable 3000 2000 \<and>
   applicable 3000 2500 \<and> applicable 3000 3000 \<and>
   find_applicable 3000 [1000, 1500, 2000, 2500, 3000] = Inr (1000, 3000, 5) \<and>
   abs_ulong (3000 - 1000) = 2000 \<and>
   fdiv (float_of_ulong 2000) 1000 = 2 \<and>
   fmul (fdiv 4 2) 60 = 120 \<and>
   calculateRPM 3000 [1000, 1500, 2000, 2500, 3000] = Inr 120"
  by (simp add: applicable_def calculateRPM_def rpm_of_def abs_ulong_def scan_eval float_eval)

subsection \<open>Which slots count\<close>




subsection \<open>The value returned for two or more data points\<close>

lemma pow2_pos: "0 < pow2 e"
  by (simp add: pow2_def)

lemma round_half_even_nonneg: "0 \<le> x \<Longrightarrow> 0 \<le> round_half_even x"
  by (simp add: round_half_even_def Let_def)

lemma float_round_nonneg: "0 \<le> x \<Longrightarrow> 0 \<le> float_round x"
  using pow2_pos [of "binade x - 23"]
  by (simp add: float_round_def Let_def round_half_even_nonneg less_imp_le)

lemma int_of_float_nonneg:
  "0 \<le> x \<Longrightarrow> int_of_float x = (if x < 32768 then Inr \<lfloor>x\<rfloor> else Inl IntCastOverflow)"
proof -
  assume x: "0 \<le> x"
  have "\<lfloor>x\<rfloor> \<le> 32767 \<longleftrightarrow> x < 32768"
    by (simp add: floor_le_iff)
  moreover have "- 32768 \<le> \<lfloor>x\<rfloor>" using x by (simp add: le_floor_iff)
  ultimately show ?thesis using x by (simp add: int_of_float_def)
qed

text \<open>
  C5, amended: on a ring whose ages are all defined, with at least 2 applicable
  slots, none of them 0, and the least of them \<open>low\<close> below the greatest \<open>high\<close>, the
  result is the single-precision value of
  \<open>(count - 1) / ((high - low) / 1000.0) * 60.0\<close> with its fractional part cut off
  (not rounded to the nearest integer), provided that this value is below 32768.
\<close>

theorem rpm_is_truncated_quotient:
  assumes len: "length ts = MAX_STAMPS"
    and def: "\<forall>t \<in> set ts. age_defined curTime t"
    and two: "2 \<le> length (valid_stamps curTime ts)"
    and nz: "0 \<notin> set (valid_stamps curTime ts)"
    and lt: "Min (set (valid_stamps curTime ts)) < Max (set (valid_stamps curTime ts))"
  shows "calculateRPM curTime ts =
     (let count = length (valid_stamps curTime ts);
          low = Min (set (valid_stamps curTime ts));
          high = Max (set (valid_stamps curTime ts));
          x = fmul (fdiv (of_nat (count - 1)) (fdiv (float_of_ulong (high - low)) 1000)) 60
      in if x < 32768 then Inr \<lfloor>x\<rfloor> else Inl IntCastOverflow)"
proof -
  let ?vs = "filter (applicable curTime) ts"
  let ?lo = "Min (set ?vs)" and ?hi = "Max (set ?vs)"
  from two have ne: "?vs \<noteq> []" by (auto simp: valid_stamps_def)
  have f: "find_applicable curTime ts = Inr (?lo, ?hi, int (length ?vs))"
    using nz ne by (intro find_applicable_Min_Max [OF len def]) (simp_all add: valid_stamps_def)
  from lt have "?hi \<noteq> ?lo"
    by (simp add: valid_stamps_def)
  then have nz': "?hi - ?lo \<noteq> 0"
    by simp
  then have td: "abs_ulong (?hi - ?lo) = ?hi - ?lo"
    by (simp add: abs_ulong_def word_gt_0)
  have revs: "(of_int (int (length ?vs) - 1) :: rat) = of_nat (length ?vs - 1)"
    using two by (simp add: valid_stamps_def of_nat_diff)
  let ?x = "fmul (fdiv (of_nat (length ?vs - 1)) (fdiv (float_of_ulong (?hi - ?lo)) 1000)) 60"
  have "0 \<le> float_of_ulong (?hi - ?lo)"
    unfolding float_of_ulong_def by (intro float_round_nonneg) (simp only: of_nat_0_le_iff)
  then have "0 \<le> fdiv (float_of_ulong (?hi - ?lo)) 1000"
    by (simp add: fdiv_def float_round_nonneg)
  then have "0 \<le> fdiv (of_nat (length ?vs - 1)) (fdiv (float_of_ulong (?hi - ?lo)) 1000)"
    by (simp add: fdiv_def float_round_nonneg)
  then have x0: "0 \<le> ?x"
    by (simp add: fmul_def float_round_nonneg)
  have "calculateRPM curTime ts = int_of_float ?x"
    using two td nz' revs
    by (simp add: calculateRPM_find [OF len f] rpm_of_def valid_stamps_def Let_def)
  also note int_of_float_nonneg [OF x0]
  finally show ?thesis
    by (simp add: valid_stamps_def Let_def)
qed

theorem rpm_is_truncated_quotient_witness:
  "length [1000, 1500, 2000, 2500, 3000 :: ulong] = MAX_STAMPS \<and>
   age_defined 3000 1000 \<and> age_defined 3000 3000 \<and>
   valid_stamps 3000 [1000, 1500, 2000, 2500, 3000] = [1000, 1500, 2000, 2500, 3000] \<and>
   calculateRPM 3000 [1000, 1500, 2000, 2500, 3000] = Inr 120"
proof -
  have v: "valid_stamps 3000 [1000, 1500, 2000, 2500, 3000] = [1000, 1500, 2000, 2500, 3000]"
    by (simp add: valid_stamps_def applicable_iff age_defined_def)
  show ?thesis
    using rpm_is_truncated_quotient [of "[1000, 1500, 2000, 2500, 3000]" 3000]
    by (simp add: v MAX_STAMPS_def age_defined_def float_eval)
qed

text \<open>
  C5, as the claim states it, fails: with the two data points 8900 and 10000 the
  quotient is 54.54..., which rounds to 55; \<open>calculateRPM\<close> returns 54.
\<close>

theorem rpm_is_not_rounded:
  "valid_stamps 10000 [8900, 10000, 1000, 2000, 3000] = [8900, 10000] \<and>
   round ((2 - 1) / ((10000 - 8900) / 1000) * 60 :: rat) = 55 \<and>
   calculateRPM 10000 [8900, 10000, 1000, 2000, 3000] = Inr 54"
  by (simp add: valid_stamps_def applicable_iff age_defined_def calculateRPM_def rpm_of_def
      abs_ulong_def scan_eval float_eval round_def)

text \<open>
  When an applicable slot holds 0, \<open>low\<close> need not be the least applicable time
  stamp: a later slot replaces a \<open>low\<close> of 0.
\<close>

lemma low_is_not_the_minimum:
  "valid_stamps 300 [0, 100, 200, 7000000, 7000000] = [0, 100, 200] \<and>
   find_applicable 300 [0, 100, 200, 7000000, 7000000] = Inr (100, 200, 3) \<and>
   calculateRPM 300 [0, 100, 200, 7000000, 7000000] = Inr 1200"
  by (simp add: valid_stamps_def applicable_iff age_defined_def calculateRPM_def rpm_of_def
      abs_ulong_def scan_eval float_eval)

section \<open>The display\<close>

subsection \<open>Looking a character up\<close>

text \<open>
  The keys of the table are ASCII characters, so that the comparison on \<open>int\<close> is
  the equality of characters, whatever the sign of \<open>char\<close>.
\<close>

lemma uint_byte_of_char: "uint (of_char c :: byte) = int (of_char c)"
proof -
  have "(of_char c :: byte) = of_nat (of_char c)" by (simp add: of_nat_of_char)
  then have "unat (of_char c :: byte) = (of_char c :: nat) mod 256"
    by (simp only: unat_of_nat) simp
  then have "int (unat (of_char c :: byte)) = int (of_char c)" by simp
  then show ?thesis by (simp only: uint_nat)
qed

lemma sint_byte_of_char:
  "sint (of_char c :: byte) =
     (if (of_char c :: nat) < 128 then int (of_char c) else int (of_char c) - 256)"
proof -
  define n :: int where "n = int (of_char c)"
  have lt: "n < 256" and nn: "0 \<le> n"
    using nat_of_char_less_256 [of c] by (simp_all add: n_def)
  have "sint (of_char c :: byte) = (n + 128) mod 256 - 128"
    by (simp add: sint_uint signed_take_bit_eq_take_bit_shift take_bit_eq_mod
        uint_byte_of_char n_def)
  moreover have "(n + 128) mod 256 - 128 = (if n < 128 then n else n - 256)"
  proof (cases "n < 128")
    case True
    with nn have "(n + 128) mod 256 = n + 128"
      by (intro mod_pos_pos_trivial) linarith+
    with True show ?thesis by simp
  next
    case False
    have "(n + 128) mod 256 = ((n - 128) + 256) mod 256"
      by (simp add: algebra_simps)
    also have "\<dots> = (n - 128) mod 256"
      by (simp only: mod_add_self2)
    also have "\<dots> = n - 128"
      using False lt by (intro mod_pos_pos_trivial) linarith+
    finally show ?thesis using False by simp
  qed
  ultimately show ?thesis by (simp add: n_def)
qed

lemma same_char_ascii:
  assumes "(of_char k :: nat) < 128"
  shows "same_char (of_char k) c \<longleftrightarrow> c = k"
proof
  assume "same_char (of_char k) c"
  then have e: "int (of_char k) = sint (of_char c :: byte)"
    by (simp add: same_char_def uint_byte_of_char)
  define n m :: nat where "n = of_char c" and "m = of_char k"
  have "n < 256" by (simp add: n_def)
  moreover from e have "int m = (if n < 128 then int n else int n - 256)"
    by (simp only: sint_byte_of_char n_def m_def)
  ultimately have "m = n" by (cases "n < 128") simp_all
  then have "(of_char k :: nat) = of_char c" by (simp only: n_def m_def)
  then show "c = k" by simp
next
  assume "c = k"
  with assms show "same_char (of_char k) c"
    by (simp add: same_char_def uint_byte_of_char sint_byte_of_char)
qed

lemma same_char_key:
  assumes "n < 128"
  shows "same_char (of_nat n) c \<longleftrightarrow> c = char_of n"
proof -
  have "(of_char (char_of n) :: nat) = n" using assms by simp
  moreover have "(of_char (char_of n) :: byte) = of_nat (of_char (char_of n))"
    by (simp only: of_nat_of_char)
  ultimately have "(of_nat n :: byte) = of_char (char_of n)" by simp
  then show ?thesis
    using same_char_ascii [of "char_of n" c] assms by simp
qed

lemma find_bitmap_absent: "\<not> in_table tbl c \<Longrightarrow> find_bitmap tbl c = 0"
  by (induction tbl c rule: find_bitmap.induct) (auto split: if_splits)

lemma in_table_CharBitMap:
  "in_table CharBitMap c \<longleftrightarrow> c \<in> set ''0123456789AbCdEFP-c ''"
proof -
  have k: "same_char (numeral n) c \<longleftrightarrow> c = char_of (numeral n :: nat)"
    if "numeral n < (128::nat)" for n
    using same_char_key [of "numeral n" c] that by simp
  show ?thesis
    by (simp add: CharBitMap_def k char_of_def bit_iff_odd)
qed

lemma glyph_space: "find_bitmap CharBitMap CHR '' '' = 0xFF"
  by (simp add: CharBitMap_def same_char_def)

subsection \<open>\<open>SetupDigits\<close>\<close>

lemma SetupDigits_loop_fits:
  assumes "CHR 0x00 \<notin> set s" and "n + length s \<le> length buf"
  shows "SetupDigits_loop s n buf =
           Inr (take n buf @ map (find_bitmap CharBitMap) s @ drop (n + length s) buf)"
  using assms
proof (induction s arbitrary: n buf)
  case Nil
  then show ?case by simp
next
  case (Cons c s)
  let ?buf = "buf[n := find_bitmap CharBitMap c]"
  from Cons.prems have n: "n < length buf" and c: "c \<noteq> CHR 0x00" and s: "CHR 0x00 \<notin> set s"
    by auto
  have "SetupDigits_loop s (Suc n) ?buf =
          Inr (take (Suc n) ?buf @ map (find_bitmap CharBitMap) s @ drop (Suc n + length s) ?buf)"
    using Cons.prems s by (intro Cons.IH) simp_all
  moreover have "take (Suc n) ?buf = take n buf @ [find_bitmap CharBitMap c]"
    using n by (simp add: take_Suc_conv_app_nth)
  moreover have "drop (Suc n + length s) ?buf = drop (Suc n + length s) buf"
    by simp
  ultimately show ?case using n c by simp
qed

lemma SetupDigits_loop_overrun:
  assumes "CHR 0x00 \<notin> set s" and "length buf < n + length s" and "n \<le> length buf"
  shows "SetupDigits_loop s n buf = Inl BufferOverrun"
  using assms
proof (induction s arbitrary: n buf)
  case Nil
  then show ?case by simp
next
  case (Cons c s)
  then show ?case by (cases "n < length buf") auto
qed

lemma SetupDigits_fits:
  assumes "CHR 0x00 \<notin> set s" and "length s \<le> length buf"
  shows "SetupDigits s buf = Inr (map (find_bitmap CharBitMap) s @ drop (length s) buf)"
  using SetupDigits_loop_fits [of s 0 buf] assms by (simp add: SetupDigits_def)

text \<open>
  C10, amended: for a string \<open>s\<close> of at most 4 characters \<open>SetupDigits\<close> writes the
  bitmap of the \<open>i\<close>-th character to entry \<open>i\<close> of the 4-byte buffer, one byte per
  character from index 0 on, in the order of the characters, and leaves the entries
  from index \<open>length s\<close> on as they were.
\<close>

theorem SetupDigits_writes_prefix:
  assumes "CHR 0x00 \<notin> set s" and "length s \<le> 4" and "length buf = 4"
  shows "SetupDigits s buf =
           Inr (map (find_bitmap CharBitMap) s @ drop (length s) buf)"
  using assms by (simp add: SetupDigits_fits)

theorem SetupDigits_writes_prefix_witness:
  "SetupDigits ''42'' [0xbf, 0xbf, 0xbf, 0xbf] = Inr [0x99, 0xA4, 0xbf, 0xbf]"
  using SetupDigits_writes_prefix [of "''42''" "[0xbf, 0xbf, 0xbf, 0xbf]"]
  by (simp add: CharBitMap_def same_char_def)

text \<open>
  C10, as the claim states it (for every string), fails: the fifth character of a
  string is stored past the end of the 4-byte buffer.
\<close>

theorem SetupDigits_overruns_buffer:
  "SetupDigits ''12345'' [0xbf, 0xbf, 0xbf, 0xbf] = Inl BufferOverrun"
  by (simp add: SetupDigits_def)

text \<open>
  C6, amended: for a string of at most 4 characters \<open>SetupDigits\<close> returns with every
  entry of the string's positions written, and the entry of a character that is not
  in the glyph table is the byte \<open>0x00\<close>. This is not the pattern \<open>0xff\<close> that the
  table gives to the space character: a 0 bit lights its segment.
\<close>

theorem unmatched_char_renders_zero:
  assumes "CHR 0x00 \<notin> set s" and "length s \<le> 4" and "length buf = 4"
  shows "\<exists>buf'. SetupDigits s buf = Inr buf' \<and> length buf' = 4 \<and>
           (\<forall>i < length s. s ! i \<notin> set ''0123456789AbCdEFP-c '' \<longrightarrow> buf' ! i = 0x00) \<and>
           find_bitmap CharBitMap CHR '' '' = 0xFF"
proof -
  let ?buf = "map (find_bitmap CharBitMap) s @ drop (length s) buf"
  have "?buf ! i = 0" if "i < length s" "s ! i \<notin> set ''0123456789AbCdEFP-c ''" for i
  proof -
    from that(2) have "\<not> in_table CharBitMap (s ! i)"
      by (simp only: in_table_CharBitMap not_False_eq_True)
    then show ?thesis using that(1) by (simp add: nth_append find_bitmap_absent)
  qed
  moreover have "length ?buf = 4" using assms by simp
  ultimately show ?thesis
    using SetupDigits_fits [of s buf] assms glyph_space by auto
qed

theorem unmatched_char_renders_zero_witness:
  "\<exists>buf'. SetupDigits ''4x'' [0xbf, 0xbf, 0xbf, 0xbf] = Inr buf' \<and> length buf' = 4 \<and>
      buf' ! 1 = 0x00"
proof -
  obtain buf' where b: "SetupDigits ''4x'' [0xbf, 0xbf, 0xbf, 0xbf] = Inr buf'"
    and l: "length buf' = 4"
    and z: "\<forall>i < length ''4x''. ''4x'' ! i \<notin> set ''0123456789AbCdEFP-c '' \<longrightarrow> buf' ! i = 0x00"
    using unmatched_char_renders_zero [of "''4x''" "[0xbf, 0xbf, 0xbf, 0xbf]"] by auto
  from z have "buf' ! 1 = 0x00" by simp
  with b l show ?thesis by blast
qed

text \<open>
  C6, as the claim states it, fails: the character \<open>x\<close> is not in the table and is
  rendered as \<open>0x00\<close>, the space character as \<open>0xff\<close>.
\<close>

theorem unmatched_char_is_not_blank:
  "SetupDigits ''x'' [0xbf, 0xbf, 0xbf, 0xbf] = Inr [0x00, 0xbf, 0xbf, 0xbf] \<and>
   SetupDigits '' '' [0xbf, 0xbf, 0xbf, 0xbf] = Inr [0xFF, 0xbf, 0xbf, 0xbf]"
  by (simp add: SetupDigits_def CharBitMap_def same_char_def)

subsection \<open>What one frame shifts out\<close>

text \<open>
  \<open>DisplayDigitBitmap\<close> shifts out the 8 bits of the bitmap and then the 8 bits of the
  digit select code, each byte from bit 7 down to bit 0, between one falling and one
  rising edge of \<open>RCLK\<close>.
\<close>

lemma msb_test: "(c AND 0x80 \<noteq> 0) = bit (c :: byte) 7"
proof -
  have "c AND 0x80 = c AND push_bit 7 1" by simp
  also have "\<dots> \<noteq> 0 \<longleftrightarrow> bit c 7"
    by (simp only: and_exp_eq_0_iff_not_bit push_bit_of_1 not_not)
  finally show ?thesis .
qed

lemma shift_out_data:
  "i \<le> 8 \<Longrightarrow> data_levels (shift_out i c) = map (\<lambda>j. level_of (bit c (7 - j))) [0..<i]"
proof (induction i arbitrary: c)
  case 0
  then show ?case by (simp add: data_levels_def)
next
  case (Suc i)
  have "data_levels (shift_out (Suc i) c) =
        level_of (bit c 7) # data_levels (shift_out i (push_bit 1 c))"
    by (simp add: data_levels_def DIO_def SCLK_def level_of_def msb_test)
  also have "data_levels (shift_out i (push_bit 1 c)) =
             map (\<lambda>j. level_of (bit (push_bit 1 c) (7 - j))) [0..<i]"
    using Suc.prems by (intro Suc.IH) simp
  also have "\<dots> = map (\<lambda>j. level_of (bit c (7 - Suc j))) [0..<i]"
  proof (intro map_cong refl)
    fix j assume "j \<in> set [0..<i]"
    with Suc.prems have j: "j < 7" by simp
    have "bit (push_bit 1 c) (7 - j) = bit c (7 - j - 1)"
      using j by (simp only: bit_push_bit_iff) (auto simp: possible_bit_word)
    then show "level_of (bit (push_bit 1 c) (7 - j)) = level_of (bit c (7 - Suc j))"
      by simp
  qed
  finally show ?case
    by (simp add: map_upt_Suc del: upt_Suc)
qed

lemma data_levels_append: "data_levels (xs @ ys) = data_levels xs @ data_levels ys"
  by (simp add: data_levels_def)

lemma data_levels_latch: "data_levels ((RCLK, l) # ws) = data_levels ws"
  by (simp add: data_levels_def RCLK_def DIO_def)

lemma DisplayDigitBitmap_data:
  "data_levels (DisplayDigitBitmap bm pos) =
     map (\<lambda>j. level_of (bit bm (7 - j))) [0..<8] @
     map (\<lambda>j. level_of (bit (digit_select pos) (7 - j))) [0..<8]"
proof -
  have "data_levels [(RCLK, HIGH)] = []"
    by (simp add: data_levels_def RCLK_def DIO_def)
  then show ?thesis
    by (simp only: DisplayDigitBitmap_def ShiftToDisplay_def data_levels_latch
        data_levels_append shift_out_data [OF order_refl] append_Nil2)
qed

subsection \<open>\<open>DisplayDigits\<close>\<close>

lemma byte_mod4: "unat (c + of_nat k :: byte) mod 4 = (unat c + k) mod 4"
proof -
  have "unat (c + of_nat k :: byte) = (unat c + k mod 256) mod 256"
    by (simp add: unat_word_ariths unat_of_nat)
  also have "\<dots> = (unat c + k) mod 256"
    by (simp add: mod_add_right_eq)
  finally have "unat (c + of_nat k :: byte) mod 4 = (unat c + k) mod 256 mod 4"
    by simp
  also have "\<dots> = (unat c + k) mod 4"
    by (rule mod_mod_cancel) simp
  finally show ?thesis .
qed

lemma DisplayDigits_step:
  "DisplayDigits st =
     st\<lparr>pins := pins st @
              DisplayDigitBitmap (DisplayBM st ! (unat (curCharacter st) mod 4))
                (4 - int (unat (curCharacter st) mod 4)),
        curCharacter := curCharacter st + 1\<rparr>"
  by (simp add: DisplayDigits_def Let_def nat_mod_distrib zmod_int)

lemma DisplayDigits_funpow:
  "(DisplayDigits ^^ n) st =
     st\<lparr>pins := pins st @
              concat (map (\<lambda>k. DisplayDigitBitmap
                                  (DisplayBM st ! ((unat (curCharacter st) + k) mod 4))
                                  (4 - int ((unat (curCharacter st) + k) mod 4))) [0..<n]),
        curCharacter := curCharacter st + of_nat n\<rparr>"
proof (induction n)
  case 0
  then show ?case by simp
next
  case (Suc n)
  let ?frames = "\<lambda>m. concat (map (\<lambda>k. DisplayDigitBitmap
                                  (DisplayBM st ! ((unat (curCharacter st) + k) mod 4))
                                  (4 - int ((unat (curCharacter st) + k) mod 4))) [0..<m])"
  let ?st = "st\<lparr>pins := pins st @ ?frames n, curCharacter := curCharacter st + of_nat n\<rparr>"
  have "(DisplayDigits ^^ Suc n) st = DisplayDigits ((DisplayDigits ^^ n) st)"
    by simp
  also have "\<dots> = DisplayDigits ?st"
    by (simp only: Suc.IH)
  also have "\<dots> = st\<lparr>pins := pins st @ ?frames (Suc n),
                         curCharacter := curCharacter st + of_nat (Suc n)\<rparr>"
    unfolding DisplayDigits_step [of ?st] by (simp add: byte_mod4 add.assoc)
  finally show ?case .
qed

text \<open>
  C8, amended: from the cursor value \<open>c\<close>, the \<open>k\<close>-th of \<open>n\<close> consecutive calls of
  \<open>DisplayDigits\<close> (counted from 0) emits exactly one frame, for the buffer entry at
  \<open>(c + k) mod 4\<close> with the position argument \<open>4 - (c + k) mod 4\<close>; the calls leave the
  buffer unchanged and add \<open>n\<close> to the cursor modulo 256. When \<open>c\<close> is a multiple of
  4, as it is after reset, five calls visit the entries 0, 1, 2, 3 and 0 again.
\<close>

theorem DisplayDigits_rotation:
  "pins ((DisplayDigits ^^ n) st) =
     pins st @ concat (map (\<lambda>k. DisplayDigitBitmap
                                 (DisplayBM st ! ((unat (curCharacter st) + k) mod 4))
                                 (4 - int ((unat (curCharacter st) + k) mod 4))) [0..<n]) \<and>
   curCharacter ((DisplayDigits ^^ n) st) = curCharacter st + of_nat n \<and>
   DisplayBM ((DisplayDigits ^^ n) st) = DisplayBM st \<and>
   (unat (curCharacter st) mod 4 = 0 \<longrightarrow>
      pins ((DisplayDigits ^^ 5) st) =
        pins st @ DisplayDigitBitmap (DisplayBM st ! 0) 4 @ DisplayDigitBitmap (DisplayBM st ! 1) 3 @
                  DisplayDigitBitmap (DisplayBM st ! 2) 2 @ DisplayDigitBitmap (DisplayBM st ! 3) 1 @
                  DisplayDigitBitmap (DisplayBM st ! 0) 4)"
proof -
  let ?c = "unat (curCharacter st)"
  have gen: "(DisplayDigits ^^ m) st =
     st\<lparr>pins := pins st @
              concat (map (\<lambda>k. DisplayDigitBitmap (DisplayBM st ! ((?c + k) mod 4))
                                  (4 - int ((?c + k) mod 4))) [0..<m]),
        curCharacter := curCharacter st + of_nat m\<rparr>" for m
    by (rule DisplayDigits_funpow)
  have five: "[0..<5] = [0, 1, 2, 3, 4]"
    by (simp add: upt_rec)
  have "pins ((DisplayDigits ^^ 5) st) =
        pins st @ DisplayDigitBitmap (DisplayBM st ! 0) 4 @ DisplayDigitBitmap (DisplayBM st ! 1) 3 @
                  DisplayDigitBitmap (DisplayBM st ! 2) 2 @ DisplayDigitBitmap (DisplayBM st ! 3) 1 @
                  DisplayDigitBitmap (DisplayBM st ! 0) 4"
    if z: "?c mod 4 = 0"
  proof -
    have km: "(?c + k) mod 4 = k mod 4" for k
      using z mod_add_left_eq [of ?c 4 k] by simp
    have m: "(?c + 0) mod 4 = 0" "(?c + 1) mod 4 = 1" "(?c + 2) mod 4 = 2"
      "(?c + 3) mod 4 = 3" "(?c + 4) mod 4 = 0"
      using km [of 0] km [of 1] km [of 2] km [of 3] km [of 4] by simp_all
    show ?thesis
      unfolding gen [of 5] five by (simp only: m list.map concat.simps) simp
  qed
  then show ?thesis
    by (simp add: gen [of n])
qed

theorem DisplayDigits_rotation_witness:
  "unat (curCharacter \<lparr>timestamps = [], DisplayBM = [0xC0, 0xF9, 0xA4, 0xB0], oldRpm = 0,
      curCharacter = 4, serial = [], pins = []\<rparr>) mod 4 = 0 \<and>
   pins ((DisplayDigits ^^ 5) \<lparr>timestamps = [], DisplayBM = [0xC0, 0xF9, 0xA4, 0xB0], oldRpm = 0,
      curCharacter = 4, serial = [], pins = []\<rparr>) =
     DisplayDigitBitmap 0xC0 4 @ DisplayDigitBitmap 0xF9 3 @ DisplayDigitBitmap 0xA4 2 @
     DisplayDigitBitmap 0xB0 1 @ DisplayDigitBitmap 0xC0 4 \<and>
   curCharacter ((DisplayDigits ^^ 5) \<lparr>timestamps = [], DisplayBM = [0xC0, 0xF9, 0xA4, 0xB0],
      oldRpm = 0, curCharacter = 4, serial = [], pins = []\<rparr>) = 9"
proof -
  let ?st = "\<lparr>timestamps = [], DisplayBM = [0xC0, 0xF9, 0xA4, 0xB0], oldRpm = 0,
      curCharacter = 4, serial = [], pins = []\<rparr>"
  note r = DisplayDigits_rotation [of 5 ?st]
  have z: "unat (curCharacter ?st) mod 4 = 0"
    by simp
  from r z have "pins ((DisplayDigits ^^ 5) ?st) =
      pins ?st @ DisplayDigitBitmap (DisplayBM ?st ! 0) 4 @ DisplayDigitBitmap (DisplayBM ?st ! 1) 3 @
        DisplayDigitBitmap (DisplayBM ?st ! 2) 2 @ DisplayDigitBitmap (DisplayBM ?st ! 3) 1 @
        DisplayDigitBitmap (DisplayBM ?st ! 0) 4"
    by blast
  moreover from r have "curCharacter ((DisplayDigits ^^ 5) ?st) = curCharacter ?st + of_nat 5"
    by blast
  ultimately show ?thesis
    using z by simp
qed

text \<open>
  C8, as the claim states it (for every starting cursor value), fails: from the
  cursor value 1 the first call emits the frame of entry 1, which differs from the
  frame of entry 0; and from the cursor value 255 the increment gives 0.
\<close>

theorem DisplayDigits_starts_at_cursor:
  "pins (DisplayDigits \<lparr>timestamps = [], DisplayBM = [0xC0, 0xF9, 0xA4, 0xB0], oldRpm = 0,
      curCharacter = 1, serial = [], pins = []\<rparr>) = DisplayDigitBitmap 0xF9 3 \<and>
   DisplayDigitBitmap 0xF9 3 \<noteq> DisplayDigitBitmap 0xC0 4 \<and>
   curCharacter (DisplayDigits \<lparr>timestamps = [], DisplayBM = [0xC0, 0xF9, 0xA4, 0xB0],
      oldRpm = 0, curCharacter = 255, serial = [], pins = []\<rparr>) = 0"
proof -
  have "data_levels (DisplayDigitBitmap 0xF9 3) \<noteq> data_levels (DisplayDigitBitmap 0xC0 4)"
    by (simp add: DisplayDigitBitmap_data digit_select_def level_of_def upt_rec)
  then have "DisplayDigitBitmap 0xF9 3 \<noteq> DisplayDigitBitmap 0xC0 4"
    by auto
  then show ?thesis
    by (simp add: DisplayDigits_def)
qed

section \<open>The main loop\<close>

subsection \<open>The formatted value\<close>

lemma decimal_digits: "set (decimal n) \<subseteq> set ''0123456789''"
proof (induction n rule: decimal.induct)
  case (1 n)
  have d: "''0123456789'' ! k \<in> set ''0123456789''" if "k < 10" for k
    using that by (intro nth_mem) simp
  show ?case
  proof (cases "n < 10")
    case True
    then show ?thesis
      using d [of n] by (subst decimal.simps) simp
  next
    case False
    have "n mod 10 < 10" by simp
    from d [OF this] 1 [OF False] False show ?thesis
      by (subst decimal.simps) simp
  qed
qed

lemma length_decimal: "0 < k \<Longrightarrow> n < 10 ^ k \<Longrightarrow> length (decimal n) \<le> k"
proof (induction k arbitrary: n)
  case 0
  then show ?case by simp
next
  case (Suc k)
  show ?case
  proof (cases "n < 10")
    case True
    then show ?thesis by (subst decimal.simps) simp
  next
    case False
    with Suc.prems have k: "0 < k"
      by (cases k) auto
    from Suc.prems have "n div 10 < 10 ^ k"
      by (simp add: less_mult_imp_div_less mult.commute)
    from Suc.IH [OF k this] False show ?thesis
      by (subst decimal.simps) simp
  qed
qed

lemma format_04d_fits:
  assumes "0 \<le> v" and "v \<le> 9999"
  shows "length (format_04d v) = 4" and "CHR 0x00 \<notin> set (format_04d v)"
proof -
  have "nat \<bar>v\<bar> < 10 ^ 4" using assms by simp
  then have l: "length (decimal (nat \<bar>v\<bar>)) \<le> 4"
    by (intro length_decimal) simp_all
  then show "length (format_04d v) = 4"
    using assms by (simp add: format_04d_def Let_def)
  have "CHR 0x00 \<notin> set ''0123456789''" by simp
  with decimal_digits [of "nat \<bar>v\<bar>"] have "CHR 0x00 \<notin> set (decimal (nat \<bar>v\<bar>))"
    by blast
  then show "CHR 0x00 \<notin> set (format_04d v)"
    using assms by (simp add: format_04d_def Let_def)
qed

lemma digit_value_nth: "d < 10 \<Longrightarrow> digit_value (''0123456789'' ! d) = d"
proof -
  assume "d < 10"
  then have "d \<in> set [0..<10]" by simp
  moreover have "\<forall>k \<in> set [0..<10]. digit_value (''0123456789'' ! k) = k"
    by (simp add: upt_rec digit_value_def)
  ultimately show ?thesis by blast
qed

lemma read_decimal_snoc: "read_decimal (s @ [c]) = read_decimal s * 10 + digit_value c"
  by (simp add: read_decimal_def)

lemma read_decimal_decimal: "read_decimal (decimal n) = n"
proof (induction n rule: decimal.induct)
  case (1 n)
  show ?case
  proof (cases "n < 10")
    case True
    then show ?thesis
      by (subst decimal.simps) (simp add: read_decimal_def digit_value_nth)
  next
    case False
    have "read_decimal (decimal n) = read_decimal (decimal (n div 10)) * 10 + n mod 10"
      using False
      by (subst decimal.simps)
        (simp add: read_decimal_snoc digit_value_nth)
    with 1 [OF False] show ?thesis by simp
  qed
qed

lemma read_decimal_zeros: "read_decimal (replicate k CHR ''0'' @ s) = read_decimal s"
proof -
  have "fold (\<lambda>c acc. acc * 10 + digit_value c) (replicate k CHR ''0'') 0 = 0"
    by (induction k) (simp_all add: digit_value_def)
  then show ?thesis by (simp add: read_decimal_def)
qed

lemma read_decimal_format: "0 \<le> v \<Longrightarrow> read_decimal (format_04d v) = nat v"
  by (simp add: format_04d_def Let_def read_decimal_zeros read_decimal_decimal)

lemma format_04d_digits: "0 \<le> v \<Longrightarrow> set (format_04d v) \<subseteq> set ''0123456789''"
  using decimal_digits [of "nat \<bar>v\<bar>"] by (auto simp: format_04d_def Let_def)

lemma glyph_inj_on_digits: "inj_on (find_bitmap CharBitMap) (set ''0123456789'')"
  by (simp add: CharBitMap_def same_char_def)

lemma render_inj:
  assumes "0 \<le> v" and "0 \<le> w"
    and "map (find_bitmap CharBitMap) (format_04d v) = map (find_bitmap CharBitMap) (format_04d w)"
  shows "v = w"
proof -
  have "inj_on (find_bitmap CharBitMap) (set (format_04d v) \<union> set (format_04d w))"
    using format_04d_digits [OF assms(1)] format_04d_digits [OF assms(2)]
    by (intro inj_on_subset [OF glyph_inj_on_digits]) blast
  with assms(3) have "format_04d v = format_04d w"
    by (simp add: inj_on_map_eq_map)
  then have "read_decimal (format_04d v) = read_decimal (format_04d w)" by simp
  with assms(1,2) show ?thesis by (simp add: read_decimal_format)
qed

lemma render_not_dashes:
  assumes "0 \<le> v" and "v \<le> 9999"
  shows "map (find_bitmap CharBitMap) (format_04d v) \<noteq> map (find_bitmap CharBitMap) ''----''"
proof
  assume e: "map (find_bitmap CharBitMap) (format_04d v) = map (find_bitmap CharBitMap) ''----''"
  from format_04d_fits(1) [OF assms] obtain c where c: "c \<in> set (format_04d v)"
    by (cases "format_04d v") auto
  then have "find_bitmap CharBitMap c \<in> set (map (find_bitmap CharBitMap) (format_04d v))"
    by simp
  then have "find_bitmap CharBitMap c = 0xbf"
    unfolding e by (simp add: CharBitMap_def same_char_def)
  moreover have "\<forall>d \<in> set ''0123456789''. find_bitmap CharBitMap d \<noteq> 0xbf"
    by (simp add: CharBitMap_def same_char_def)
  ultimately show False
    using c format_04d_digits [OF assms(1)] by blast
qed

subsection \<open>One pass of the loop\<close>

text \<open>
  Two rings for the examples below: one with 120 revolutions per minute, one with
  12000.
\<close>

lemma rpm_120: "calculateRPM 3000 [1000, 1500, 2000, 2500, 3000] = Inr 120"
  by (simp add: calculateRPM_def rpm_of_def abs_ulong_def scan_eval float_eval)

lemma rpm_12000: "calculateRPM 10000 [9995, 10000, 1000, 2000, 3000] = Inr 12000"
  by (simp add: calculateRPM_def rpm_of_def abs_ulong_def scan_eval float_eval)

text \<open>
  In a pass of the loop in which \<open>calculateRPM\<close> returns a value \<open>rpm\<close> between 0
  and 9999, the display buffer is rendered again (one glyph lookup per character of
  the \<open>"%.4d"\<close> string) exactly when \<open>rpm\<close> differs from \<open>oldRpm\<close>, and then the one
  line \<open>rpm: <rpm>\<close> is written to the console; the new buffer differs from the old
  one when the old one showed \<open>oldRpm\<close> or the four dashes of \<open>setup\<close>. When \<open>rpm\<close>
  equals \<open>oldRpm\<close>, the buffer and the console output stay as they are.
\<close>

lemma loop_iteration_renders_on_change:
  assumes rpm: "calculateRPM curTime (timestamps st) = Inr rpm"
    and range: "0 \<le> rpm" "rpm \<le> 9999"
    and len: "length (DisplayBM st) = 4"
  shows "\<exists>st'. loop_iteration curTime st = Inr st' \<and> oldRpm st' = rpm \<and>
     (if rpm \<noteq> oldRpm st
      then DisplayBM st' = map (find_bitmap CharBitMap) (format_04d rpm) \<and>
           serial st' = serial st @ ''rpm: '' @ print_int rpm @ [CHR 0x0D, CHR 0x0A] \<and>
           (0 \<le> oldRpm st \<and>
            DisplayBM st = map (find_bitmap CharBitMap) (format_04d (oldRpm st)) \<or>
            DisplayBM st = map (find_bitmap CharBitMap) ''----''
            \<longrightarrow> DisplayBM st' \<noteq> DisplayBM st)
      else DisplayBM st' = DisplayBM st \<and> serial st' = serial st)"
proof (cases "rpm = oldRpm st")
  case True
  then show ?thesis
    using rpm by (simp add: loop_iteration_def DisplayDigits_def Let_def)
next
  case False
  note f = format_04d_fits [OF range]
  let ?buf = "map (find_bitmap CharBitMap) (format_04d rpm)"
  have s: "sprintf_displayString rpm = Inr (format_04d rpm)"
    using f(1) by (simp add: sprintf_displayString_def Let_def)
  have d: "SetupDigits (format_04d rpm) (DisplayBM st) = Inr ?buf"
    using SetupDigits_fits [OF f(2), of "DisplayBM st"] f(1) len by simp
  have m1: "?buf \<noteq> map (find_bitmap CharBitMap) (format_04d (oldRpm st))"
    if "0 \<le> oldRpm st"
    using render_inj [OF range(1) that] False by blast
  have m2: "?buf \<noteq> map (find_bitmap CharBitMap) ''----''"
    by (rule render_not_dashes [OF range])
  have "loop_iteration curTime st =
          Inr (DisplayDigits (st\<lparr>oldRpm := rpm,
                 serial := serial st @ ''rpm: '' @ print_int rpm @ [CHR 0x0D, CHR 0x0A],
                 DisplayBM := ?buf\<rparr>))"
    using rpm False s d by (simp add: loop_iteration_def Let_def)
  then show ?thesis
    using False m1 m2 by (auto simp: DisplayDigits_def Let_def)
qed

lemma loop_iteration_renders_on_change_example:
  "(\<exists>st'. loop_iteration 3000
       \<lparr>timestamps = [1000, 1500, 2000, 2500, 3000], DisplayBM = [0xbf, 0xbf, 0xbf, 0xbf],
        oldRpm = 0, curCharacter = 0, serial = [], pins = []\<rparr> = Inr st' \<and>
      DisplayBM st' = [0xC0, 0xF9, 0xA4, 0xC0] \<and>
      serial st' = ''rpm: 120'' @ [CHR 0x0D, CHR 0x0A]) \<and>
   (\<exists>st'. loop_iteration 3000
       \<lparr>timestamps = [1000, 1500, 2000, 2500, 3000], DisplayBM = [0xC0, 0xF9, 0xA4, 0xC0],
        oldRpm = 120, curCharacter = 1, serial = [], pins = []\<rparr> = Inr st' \<and>
      DisplayBM st' = [0xC0, 0xF9, 0xA4, 0xC0] \<and> serial st' = [])"
proof -
  let ?a = "\<lparr>timestamps = [1000, 1500, 2000, 2500, 3000], DisplayBM = [0xbf, 0xbf, 0xbf, 0xbf],
        oldRpm = 0, curCharacter = 0, serial = [], pins = []\<rparr>"
  let ?b = "\<lparr>timestamps = [1000, 1500, 2000, 2500, 3000], DisplayBM = [0xC0, 0xF9, 0xA4, 0xC0],
        oldRpm = 120, curCharacter = 1, serial = [], pins = []\<rparr>"
  have f: "format_04d 120 = ''0120''" "print_int 120 = ''120''"
    by (simp_all add: format_04d_def print_int_def decimal.simps)
  have g: "find_bitmap CharBitMap CHR ''0'' = 0xC0" "find_bitmap CharBitMap CHR ''1'' = 0xF9"
    "find_bitmap CharBitMap CHR ''2'' = 0xA4"
    by (simp_all add: CharBitMap_def same_char_def)
  show ?thesis
    using loop_iteration_renders_on_change [of 3000 ?a 120]
      loop_iteration_renders_on_change [of 3000 ?b 120]
    by (simp add: rpm_120 f g) blast
qed

text \<open>
  C7: the claim has every pass of the loop render the buffer again and write one
  line when the value has changed. For the value 12000, which differs from
  \<open>oldRpm\<close>, the string \<open>"12000"\<close> and its closing NUL do not fit into
  \<open>displayString[5]\<close>, and its fifth character does not fit into the 4 bytes of
  \<open>DisplayBM\<close>: the pass overruns both buffers.
\<close>

theorem loop_iteration_overruns:
  "calculateRPM 10000 [9995, 10000, 1000, 2000, 3000] = Inr 12000 \<and>
   format_04d 12000 = ''12000'' \<and>
   sprintf_displayString 12000 = Inl BufferOverrun \<and>
   SetupDigits ''12000'' [0xbf, 0xbf, 0xbf, 0xbf] = Inl BufferOverrun \<and>
   loop_iteration 10000
     \<lparr>timestamps = [9995, 10000, 1000, 2000, 3000], DisplayBM = [0xbf, 0xbf, 0xbf, 0xbf],
      oldRpm = 0, curCharacter = 0, serial = [], pins = []\<rparr> = Inl BufferOverrun"
  by (simp add: rpm_12000 loop_iteration_def sprintf_displayString_def format_04d_def
      decimal.simps SetupDigits_def)

end
